theory Spec2Isabelle
  imports Main "HOL-Library.Word" "HOL-Library.Log_Nat"
begin

unbundle bit_operations_syntax

section \<open>The encoder: \<open>create_png\<close>\<close>

text \<open>
  Bytes objects are lists of 8-bit words. Python integers are \<open>int\<close>. An exception
  raised by the source is a value of \<open>py_error\<close> on the left of a sum:
  \<open>struct.pack\<close> raises \<open>struct.error\<close> when an \<open>I\<close> field is outside
  \<open>0 .. 2^32 - 1\<close>, and \<open>bytes(...)\<close> raises \<open>ValueError\<close> when an element
  is outside \<open>range(256)\<close>.
\<close>

type_synonym byte = "8 word"

datatype py_error = StructError | ValueError

text \<open>\<open>struct.pack('>I', n)\<close> for a value already known to be in range.\<close>

definition be32 :: "nat \<Rightarrow> byte list" where
  "be32 n = [of_nat (n div 2 ^ 24 mod 256), of_nat (n div 2 ^ 16 mod 256),
             of_nat (n div 2 ^ 8 mod 256), of_nat (n mod 256)]"

definition struct_pack_I :: "int \<Rightarrow> py_error + byte list" where
  "struct_pack_I n = (if 0 \<le> n \<and> n < 2 ^ 32 then Inr (be32 (nat n)) else Inl StructError)"

text \<open>
  \<open>zlib.crc32\<close>: the CRC-32 of the zlib library (reflected polynomial \<open>0xEDB88320\<close>,
  initial value and final xor \<open>0xFFFFFFFF\<close>), one bit at a time.
\<close>

definition crc_shift :: "32 word \<Rightarrow> 32 word" where
  "crc_shift c = (if bit c 0 then drop_bit 1 c XOR 0xEDB88320 else drop_bit 1 c)"

definition crc_update :: "32 word \<Rightarrow> byte \<Rightarrow> 32 word" where
  "crc_update c b = (crc_shift ^^ 8) (c XOR ucast b)"

definition crc32 :: "byte list \<Rightarrow> 32 word" where
  "crc32 bs = foldl crc_update 0xFFFFFFFF bs XOR 0xFFFFFFFF"

text \<open>
  \<open>make_chunk\<close>: the checksum is masked to 32 bits, so packing it never raises; packing
  the length of the payload raises when the payload has \<open>2^32\<close> bytes or more.
\<close>

definition make_chunk :: "byte list \<Rightarrow> byte list \<Rightarrow> py_error + byte list" where
  "make_chunk chunk_type data =
     (let chunk = chunk_type @ data;
          crc = be32 (unat (crc32 chunk))
      in case struct_pack_I (int (length data)) of
           Inl e \<Rightarrow> Inl e
         | Inr len \<Rightarrow> Inr (len @ chunk @ crc))"

definition signature :: "byte list" where
  "signature = [0x89, 0x50, 0x4E, 0x47, 0x0D, 0x0A, 0x1A, 0x0A]"

definition IHDR :: "byte list" where
  "IHDR = [0x49, 0x48, 0x44, 0x52]"

definition IDAT :: "byte list" where
  "IDAT = [0x49, 0x44, 0x41, 0x54]"

definition IEND :: "byte list" where
  "IEND = [0x49, 0x45, 0x4E, 0x44]"

text \<open>\<open>struct.pack('>IIBBBBB', width, height, 8, 6, 0, 0, 0)\<close>.\<close>

definition ihdr_data :: "int \<Rightarrow> int \<Rightarrow> py_error + byte list" where
  "ihdr_data width height =
     (if 0 \<le> width \<and> width < 2 ^ 32 \<and> 0 \<le> height \<and> height < 2 ^ 32
      then Inr (be32 (nat width) @ be32 (nat height) @ [8, 6, 0, 0, 0])
      else Inl StructError)"

text \<open>\<open>bytes(vs)\<close> for a list of integers.\<close>

definition py_bytes :: "int list \<Rightarrow> py_error + byte list" where
  "py_bytes vs =
     (if list_all (\<lambda>v. 0 \<le> v \<and> v < 256) vs then Inr (map word_of_int vs)
      else Inl ValueError)"

text \<open>
  The two loops that build \<open>raw_data\<close>. The slice \<open>pixels[idx:idx+4]\<close> never raises:
  past the end of the list it is shorter than four elements, or empty.
\<close>

fun row_loop :: "int list \<Rightarrow> nat \<Rightarrow> nat \<Rightarrow> nat list \<Rightarrow> byte list \<Rightarrow> py_error + byte list" where
  "row_loop pixels width y [] raw = Inr raw"
| "row_loop pixels width y (x # xs) raw =
     (let idx = (y * width + x) * 4 in
      case py_bytes (take 4 (drop idx pixels)) of
        Inl e \<Rightarrow> Inl e
      | Inr b \<Rightarrow> row_loop pixels width y xs (raw @ b))"

fun rows_loop :: "int list \<Rightarrow> nat \<Rightarrow> nat list \<Rightarrow> byte list \<Rightarrow> py_error + byte list" where
  "rows_loop pixels width [] raw = Inr raw"
| "rows_loop pixels width (y # ys) raw =
     (case row_loop pixels width y [0..<width] (raw @ [0]) of
        Inl e \<Rightarrow> Inl e
      | Inr raw' \<Rightarrow> rows_loop pixels width ys raw')"

definition raw_data :: "int \<Rightarrow> int \<Rightarrow> int list \<Rightarrow> py_error + byte list" where
  "raw_data width height pixels = rows_loop pixels (nat width) [0..<nat height] []"

text \<open>
  \<open>create_png\<close>. The compressor \<open>zlib.compress(_, 9)\<close> is a library function whose
  output is not modelled: it is the parameter \<open>compress\<close>.
\<close>

definition create_png :: "(byte list \<Rightarrow> byte list) \<Rightarrow> int \<Rightarrow> int \<Rightarrow> int list \<Rightarrow> py_error + byte list" where
  "create_png compress width height pixels =
     (case ihdr_data width height of
        Inl e \<Rightarrow> Inl e
      | Inr hdr \<Rightarrow>
     (case make_chunk IHDR hdr of
        Inl e \<Rightarrow> Inl e
      | Inr ihdr \<Rightarrow>
     (case raw_data width height pixels of
        Inl e \<Rightarrow> Inl e
      | Inr raw \<Rightarrow>
     (case make_chunk IDAT (compress raw) of
        Inl e \<Rightarrow> Inl e
      | Inr idat \<Rightarrow>
     (case make_chunk IEND [] of
        Inl e \<Rightarrow> Inl e
      | Inr iend \<Rightarrow> Inr (signature @ ihdr @ idat @ iend))))))"

subsection \<open>Reading the container back\<close>

text \<open>
  A reader for the container, written from the format the specification describes: a
  chunk is a 4-byte big-endian payload length, a 4-byte tag, the payload and a 4-byte
  checksum. \<open>parse_chunks\<close> splits a byte sequence into its chunks and fails when the
  sequence does not end on a chunk boundary.
\<close>

definition from_be32 :: "byte list \<Rightarrow> nat" where
  "from_be32 bs = foldl (\<lambda>a b. a * 256 + unat b) 0 bs"

function parse_chunks :: "byte list \<Rightarrow> (byte list \<times> byte list \<times> byte list) list option" where
  "parse_chunks bs =
     (if bs = [] then Some []
      else if length bs < 12 + from_be32 (take 4 bs) then None
      else (let n = from_be32 (take 4 bs);
                tag = take 4 (drop 4 bs);
                payload = take n (drop 8 bs);
                crc = take 4 (drop (8 + n) bs)
            in case parse_chunks (drop (12 + n) bs) of
                 None \<Rightarrow> None
               | Some cs \<Rightarrow> Some ((tag, payload, crc) # cs)))"
  by pat_completeness auto
termination
  by (relation "measure length") auto

declare parse_chunks.simps [simp del]

definition crc_ok :: "byte list \<times> byte list \<times> byte list \<Rightarrow> bool" where
  "crc_ok c = (case c of (tag, payload, crc) \<Rightarrow> crc = be32 (unat (crc32 (tag @ payload))))"

text \<open>
  The scanlines of an 8-bit RGBA image: each of the \<open>h\<close> rows is a filter byte, which
  must be 0 (no filter), followed by \<open>4 * w\<close> bytes.
\<close>

fun strip_rows :: "nat \<Rightarrow> nat \<Rightarrow> byte list \<Rightarrow> byte list option" where
  "strip_rows 0 w bs = (if bs = [] then Some [] else None)"
| "strip_rows (Suc k) w bs =
     (case bs of
        [] \<Rightarrow> None
      | f # rest \<Rightarrow>
          if f \<noteq> 0 \<or> length rest < 4 * w then None
          else (case strip_rows k w (drop (4 * w) rest) of
                  None \<Rightarrow> None
                | Some px \<Rightarrow> Some (take (4 * w) rest @ px)))"

text \<open>
  The decoder: signature, then exactly the chunks IHDR, IDAT, IEND with matching
  checksums, an 8-bit RGBA header, and the scanlines of the decompressed IDAT payload.
  \<open>decompress\<close> is the inverse of the library's compressor, a parameter as well.
\<close>

definition decode_png :: "(byte list \<Rightarrow> byte list option) \<Rightarrow> byte list \<Rightarrow> (nat \<times> nat \<times> int list) option" where
  "decode_png decompress bs =
     (if take 8 bs \<noteq> signature then None
      else case parse_chunks (drop 8 bs) of
        Some [c1, c2, c3] \<Rightarrow>
          if fst c1 = IHDR \<and> fst c2 = IDAT \<and> fst c3 = IEND
             \<and> crc_ok c1 \<and> crc_ok c2 \<and> crc_ok c3
             \<and> length (fst (snd c1)) = 13 \<and> drop 8 (fst (snd c1)) = [8, 6, 0, 0, 0]
          then (let w = from_be32 (take 4 (fst (snd c1)));
                    h = from_be32 (take 4 (drop 4 (fst (snd c1))))
                in case decompress (fst (snd c2)) of
                     None \<Rightarrow> None
                   | Some raw \<Rightarrow>
                       (case strip_rows h w raw of
                          None \<Rightarrow> None
                        | Some px \<Rightarrow> Some (w, h, map uint px)))
          else None
      | _ \<Rightarrow> None)"

subsection \<open>Serialized chunks\<close>

text \<open>
  The serialization of one chunk as the specification words it, and the conditions under
  which its fields have their fixed sizes.
\<close>

definition chunk_bytes :: "byte list \<times> byte list \<times> byte list \<Rightarrow> byte list" where
  "chunk_bytes c = (case c of (tag, payload, crc) \<Rightarrow> be32 (length payload) @ tag @ payload @ crc)"

definition chunk_wf :: "byte list \<times> byte list \<times> byte list \<Rightarrow> bool" where
  "chunk_wf c = (case c of (tag, payload, crc) \<Rightarrow>
     length tag = 4 \<and> length crc = 4 \<and> length payload < 2 ^ 32)"

subsection \<open>The data stream in closed form\<close>

text \<open>
  \<open>pixel_ok\<close> is the range \<open>bytes(...)\<close> accepts. \<open>raw_bytes\<close> is what the
  two loops of \<open>create_png\<close> build when no conversion raises: per row a zero filter
  byte and the slices of the row (lemma \<open>raw_data_ok\<close>).
\<close>

definition pixel_ok :: "int \<Rightarrow> bool" where
  "pixel_ok v = (0 \<le> v \<and> v < 256)"

definition row_bytes :: "int list \<Rightarrow> nat \<Rightarrow> nat \<Rightarrow> byte list" where
  "row_bytes pixels width y =
     concat (map (\<lambda>x. map word_of_int (take 4 (drop ((y * width + x) * 4) pixels))) [0..<width])"

definition raw_bytes :: "int list \<Rightarrow> nat \<Rightarrow> nat \<Rightarrow> byte list" where
  "raw_bytes pixels width height = concat (map (\<lambda>y. 0 # row_bytes pixels width y) [0..<height])"

text \<open>The three chunks of the output, as (tag, payload, checksum).\<close>

definition png_chunks :: "nat \<Rightarrow> nat \<Rightarrow> byte list \<Rightarrow> (byte list \<times> byte list \<times> byte list) list" where
  "png_chunks w h dat =
     (let hdr = be32 w @ be32 h @ [8, 6, 0, 0, 0] in
      [(IHDR, hdr, be32 (unat (crc32 (IHDR @ hdr)))),
       (IDAT, dat, be32 (unat (crc32 (IDAT @ dat)))),
       (IEND, [], be32 (unat (crc32 (IEND @ []))))])"

section \<open>Floating point\<close>

text \<open>
  A Python float is an IEEE 754 binary64 number. A finite double is modelled by its exact
  rational value, and every arithmetic operation is the exact operation followed by
  \<open>rnd\<close>, rounding to the nearest number with a 53-bit significand, ties to the even
  significand. The exponent range is not modelled (no overflow to infinity, no
  subnormal numbers): the values \<open>draw_icon\<close> computes stay far inside it for every
  size a list of \<open>size * size * 4\<close> elements can exist for.
\<close>

type_synonym double = rat

definition pow2 :: "int \<Rightarrow> rat" where
  "pow2 e = (if 0 \<le> e then 2 ^ nat e else 1 / 2 ^ nat (- e))"

text \<open>Rounding to the nearest integer, ties to even.\<close>

definition round_even :: "rat \<Rightarrow> int" where
  "round_even q =
     (let f = \<lfloor>q\<rfloor>; d = q - of_int f in
      if d < 1 / 2 then f
      else if 1 / 2 < d then f + 1
      else if even f then f else f + 1)"

text \<open>The binary exponent of a non-zero number: \<open>2 ^ expo q \<le> \<bar>q\<bar> < 2 ^ (expo q + 1)\<close>.\<close>

definition expo :: "rat \<Rightarrow> int" where
  "expo q =
     (let (a, b) = quotient_of \<bar>q\<bar>; e = bitlen a - bitlen b in
      if pow2 e \<le> \<bar>q\<bar> then e else e - 1)"

definition rnd :: "rat \<Rightarrow> double" where
  "rnd q =
     (if q = 0 then 0
      else (let u = pow2 (expo q - 52) in of_int (round_even (q / u)) * u))"

definition fadd :: "double \<Rightarrow> double \<Rightarrow> double" where
  "fadd a b = rnd (a + b)"

definition fsub :: "double \<Rightarrow> double \<Rightarrow> double" where
  "fsub a b = rnd (a - b)"

definition fmul :: "double \<Rightarrow> double \<Rightarrow> double" where
  "fmul a b = rnd (a * b)"

definition fdiv :: "double \<Rightarrow> double \<Rightarrow> double" where
  "fdiv a b = rnd (a / b)"

text \<open>
  \<open>v ** 2\<close> calls the C library's \<open>pow\<close>; it is modelled as the correctly rounded
  square.
\<close>

definition fsquare :: "double \<Rightarrow> double" where
  "fsquare v = rnd (v * v)"

text \<open>The conversion of a Python integer to a float, and \<open>int(...)\<close> of a float.\<close>

definition of_py_int :: "int \<Rightarrow> double" where
  "of_py_int n = rnd (of_int n)"

definition py_int :: "double \<Rightarrow> int" where
  "py_int q = (if 0 \<le> q then \<lfloor>q\<rfloor> else \<lceil>q\<rceil>)"

text \<open>
  \<open>math.sqrt\<close>: the correctly rounded square root, from the integer square root of the
  scaled argument. \<open>math.sqrt\<close> raises for a negative argument; every argument it gets
  in \<open>draw_icon\<close> is the rounding of a sum of two rounded squares, which is not negative
  (lemma \<open>sqrt_arg_nonneg\<close>).
\<close>

fun isqrt_aux :: "nat \<Rightarrow> int \<Rightarrow> int \<Rightarrow> int" where
  "isqrt_aux 0 n r = r"
| "isqrt_aux (Suc k) n r =
     isqrt_aux k n (if (r + 2 ^ k) * (r + 2 ^ k) \<le> n then r + 2 ^ k else r)"

definition isqrt :: "int \<Rightarrow> int" where
  "isqrt n = isqrt_aux (nat (bitlen n)) n 0"

definition fsqrt :: "double \<Rightarrow> double" where
  "fsqrt q =
     (if q \<le> 0 then 0
      else (let u = pow2 (expo q div 2 - 52);
                s = q / (u * u);
                n = isqrt \<lfloor>s\<rfloor>;
                h = (of_int n + 1 / 2) * (of_int n + 1 / 2);
                m = (if s < h then n else if h < s then n + 1
                     else if even n then n else n + 1)
            in of_int m * u))"

section \<open>The rasterizer: \<open>draw_icon\<close>\<close>

text \<open>
  The geometry of one pixel, with the names of the source. \<open>size\<close>, \<open>x\<close> and \<open>y\<close>
  are Python integers; \<open>size / 2\<close> is the correctly rounded quotient.
\<close>

definition center :: "int \<Rightarrow> double" where
  "center size' = rnd (of_int size' / 2)"

definition radius :: "int \<Rightarrow> double" where
  "radius size' = fmul (of_py_int size') (rnd (45 / 100))"

definition delta :: "int \<Rightarrow> int \<Rightarrow> double" where
  "delta size' x = fsub (of_py_int x) (center size')"

definition dist :: "int \<Rightarrow> int \<Rightarrow> int \<Rightarrow> double" where
  "dist size' x y =
     (let dx = delta size' x; dy = delta size' y in
      fsqrt (fadd (fmul dx dx) (fmul dy dy)))"

text \<open>The gradient: \<open>t\<close> after clamping, and the three colour channels.\<close>

definition gradient_t :: "int \<Rightarrow> int \<Rightarrow> int \<Rightarrow> double" where
  "gradient_t size' x y =
     (let dx = delta size' x; dy = delta size' y;
          t = fadd (fdiv (fadd dx dy) (fmul 2 (radius size'))) (1 / 2)
      in max 0 (min 1 t))"

definition background :: "int \<Rightarrow> int \<Rightarrow> int \<Rightarrow> int \<times> int \<times> int" where
  "background size' x y =
     (let t = gradient_t size' x y in
      (py_int (fadd 40 (fmul t 20)),
       py_int (fadd 120 (fmul t 30)),
       py_int (fsub 220 (fmul t 40))))"

text \<open>The alpha channel: 255, or the anti-aliased value within 1.5 pixels of the edge.\<close>

definition edge_dist :: "int \<Rightarrow> int \<Rightarrow> int \<Rightarrow> double" where
  "edge_dist size' x y = fsub (radius size') (dist size' x y)"

definition edge_alpha :: "int \<Rightarrow> int \<Rightarrow> int \<Rightarrow> int" where
  "edge_alpha size' x y =
     (if edge_dist size' x y < 3 / 2
      then py_int (fmul 255 (fdiv (edge_dist size' x y) (3 / 2)))
      else 255)"

text \<open>The four tests of the microphone shape, on the normalized coordinates.\<close>

definition mic_body :: "double \<Rightarrow> double \<Rightarrow> bool" where
  "mic_body nx ny =
     (let mic_width = rnd (22 / 100);
          mic_top = - rnd (55 / 100);
          mic_bottom = 0;
          mic_corner_r = mic_width
      in if \<bar>nx\<bar> \<le> mic_width then
           (if fadd mic_top mic_corner_r \<le> ny \<and> ny \<le> fsub mic_bottom mic_corner_r then True
            else if ny < fadd mic_top mic_corner_r then
              fsqrt (fadd (fmul nx nx) (fsquare (fsub ny (fadd mic_top mic_corner_r))))
                \<le> mic_corner_r
            else if ny > fsub mic_bottom mic_corner_r then
              fsqrt (fadd (fmul nx nx) (fsquare (fsub ny (fsub mic_bottom mic_corner_r))))
                \<le> mic_corner_r
            else False)
         else False)"

definition mic_arc :: "double \<Rightarrow> double \<Rightarrow> bool" where
  "mic_arc nx ny =
     (let arc_radius = rnd (38 / 100);
          arc_thickness = rnd (55 / 1000)
      in if - rnd (1 / 10) \<le> ny \<and> ny \<le> 1 / 4 then
           (let arc_dist = fsqrt (fadd (fmul nx nx) (fsquare (fsub ny (- rnd (1 / 10)))))
            in \<bar>fsub arc_dist arc_radius\<bar> \<le> arc_thickness \<and> ny \<ge> - rnd (1 / 10))
         else False)"

definition mic_stand :: "double \<Rightarrow> double \<Rightarrow> bool" where
  "mic_stand nx ny =
     (let stand_width = rnd (4 / 100)
      in \<bar>nx\<bar> \<le> stand_width \<and> rnd (15 / 100) \<le> ny \<and> ny \<le> rnd (45 / 100))"

definition mic_base :: "double \<Rightarrow> double \<Rightarrow> bool" where
  "mic_base nx ny =
     (let base_width = rnd (2 / 10);
          base_thickness = rnd (4 / 100)
      in \<bar>nx\<bar> \<le> base_width \<and> \<bar>fsub ny (rnd (45 / 100))\<bar> \<le> base_thickness)"

definition is_mic :: "int \<Rightarrow> int \<Rightarrow> int \<Rightarrow> bool" where
  "is_mic size' x y =
     (let nx = fdiv (delta size' x) (radius size');
          ny = fdiv (delta size' y) (radius size')
      in mic_body nx ny \<or> mic_arc nx ny \<or> mic_stand nx ny \<or> mic_base nx ny)"

text \<open>The four values the loop body writes for the pixel \<open>(x, y)\<close>.\<close>

definition pixel_rgba :: "int \<Rightarrow> int \<Rightarrow> int \<Rightarrow> int \<times> int \<times> int \<times> int" where
  "pixel_rgba size' x y =
     (if dist size' x y \<le> radius size' then
        (let (r, g, b) = background size' x y;
             a = edge_alpha size' x y
         in if is_mic size' x y then (255, 255, 255, a) else (r, g, b, a))
      else (0, 0, 0, 0))"

text \<open>
  The buffer and the two loops. Every index written is inside the list (lemma
  \<open>draw_icon_length\<close> and the bounds of the loops), so no assignment raises.
\<close>

definition put_pixel :: "int list \<Rightarrow> nat \<Rightarrow> int \<times> int \<times> int \<times> int \<Rightarrow> int list" where
  "put_pixel pixels idx p =
     (case p of (r, g, b, a) \<Rightarrow>
        pixels[idx := r, idx + 1 := g, idx + 2 := b, idx + 3 := a])"

definition draw_row :: "int \<Rightarrow> nat \<Rightarrow> int list \<Rightarrow> int list" where
  "draw_row size' y pixels =
     foldl (\<lambda>px x. put_pixel px ((y * nat size' + x) * 4) (pixel_rgba size' (int x) (int y)))
       pixels [0..<nat size']"

definition draw_icon :: "int \<Rightarrow> int list" where
  "draw_icon size' =
     foldl (\<lambda>px y. draw_row size' y px) (replicate (nat (size' * size' * 4)) 0) [0..<nat size']"

section \<open>Properties of the encoder\<close>

lemma length_be32 [simp]: "length (be32 n) = 4"
  by (simp add: be32_def)

text \<open>
  What a successful call has checked and what it returns: both dimensions fit 32 bits,
  every slice converted to bytes, the compressed stream is shorter than \<open>2^32\<close> bytes,
  and the result is the signature followed by three serialized chunks.
\<close>

lemma create_png_InrD:
  assumes "create_png compress width height pixels = Inr bs"
  shows "\<exists>raw. 0 \<le> width \<and> width < 2 ^ 32 \<and> 0 \<le> height \<and> height < 2 ^ 32
           \<and> raw_data width height pixels = Inr raw \<and> length (compress raw) < 2 ^ 32
           \<and> bs = signature
               @ (be32 13 @ IHDR @ (be32 (nat width) @ be32 (nat height) @ [8, 6, 0, 0, 0])
                    @ be32 (unat (crc32 (IHDR @ be32 (nat width) @ be32 (nat height) @ [8, 6, 0, 0, 0]))))
               @ (be32 (length (compress raw)) @ IDAT @ compress raw
                    @ be32 (unat (crc32 (IDAT @ compress raw))))
               @ (be32 0 @ IEND @ [] @ be32 (unat (crc32 (IEND @ []))))"
  using assms
  by (auto simp: create_png_def ihdr_data_def make_chunk_def struct_pack_I_def Let_def
      split: sum.splits if_splits)

lemma create_png_small:
  "\<exists>bs. create_png (\<lambda>d. d) 1 1 [1, 2, 3, 4] = Inr bs"
  by (simp add: create_png_def ihdr_data_def make_chunk_def struct_pack_I_def Let_def
      raw_data_def py_bytes_def)

text \<open>
  C6. In the bytes returned by \<open>create_png\<close>, the first chunk after the signature has
  length field 13 and tag IHDR, and its 13 payload bytes are the width and the height,
  each as four big-endian bytes, followed by the bytes 8 (bit depth), 6 (colour type
  RGBA), 0, 0, 0 (compression, filter, interlace).
\<close>

theorem ihdr_payload:
  assumes "create_png compress width height pixels = Inr bs"
  shows "take 8 (drop 8 bs) = be32 13 @ IHDR
       \<and> take 13 (drop 16 bs) = be32 (nat width) @ be32 (nat height) @ [8, 6, 0, 0, 0]"
  using create_png_InrD [OF assms]
  by (auto simp: signature_def IHDR_def)

theorem ihdr_payload_witness:
  "\<exists>bs. create_png (\<lambda>d. d) 1 1 [1, 2, 3, 4] = Inr bs
       \<and> take 13 (drop 16 bs) = [0, 0, 0, 1, 0, 0, 0, 1, 8, 6, 0, 0, 0]"
proof -
  obtain bs where h: "create_png (\<lambda>d. d) 1 1 [1, 2, 3, 4] = Inr bs"
    using create_png_small by blast
  from ihdr_payload [OF h] have "take 13 (drop 16 bs) = [0, 0, 0, 1, 0, 0, 0, 1, 8, 6, 0, 0, 0]"
    by (simp add: be32_def)
  with h show ?thesis by blast
qed

lemma unat_byte_mod: "unat (of_nat (k mod 256) :: byte) = k mod 256"
  by (simp add: unat_of_nat)

lemma be32_digits:
  assumes n: "(n::nat) < 2 ^ 32"
  shows "((n div 2 ^ 24 mod 256 * 256 + n div 2 ^ 16 mod 256) * 256 + n div 2 ^ 8 mod 256) * 256
           + n mod 256 = n"
proof -
  define a where "a = n div 256"
  define b where "b = a div 256"
  define c where "c = b div 256"
  have d8: "n div 2 ^ 8 = a" by (simp add: a_def)
  have d16: "n div 2 ^ 16 = b" by (simp add: a_def b_def div_mult2_eq [symmetric])
  have d24: "n div 2 ^ 24 = c" by (simp add: a_def b_def c_def div_mult2_eq [symmetric])
  have "c < 256" using n unfolding d24 [symmetric] by (simp add: less_mult_imp_div_less)
  then have c: "c mod 256 = c" by simp
  have "c * 256 + b mod 256 = b" by (simp add: c_def)
  moreover have "b * 256 + a mod 256 = a" by (simp add: b_def)
  moreover have "a * 256 + n mod 256 = n" by (simp add: a_def)
  ultimately show ?thesis by (simp only: d8 d16 d24 c)
qed

lemma from_be32_be32: "n < 2 ^ 32 \<Longrightarrow> from_be32 (be32 n) = n"
proof -
  assume n: "n < 2 ^ 32"
  have "from_be32 (be32 n) =
     ((n div 2 ^ 24 mod 256 * 256 + n div 2 ^ 16 mod 256) * 256 + n div 2 ^ 8 mod 256) * 256 + n mod 256"
    unfolding from_be32_def be32_def by (simp only: foldl.simps unat_byte_mod) simp
  also have "\<dots> = n" by (rule be32_digits [OF n])
  finally show ?thesis .
qed

lemma parse_chunk_bytes:
  assumes "chunk_wf c" "parse_chunks rest = Some cs"
  shows "parse_chunks (chunk_bytes c @ rest) = Some (c # cs)"
proof -
  obtain tag payload crc where c: "c = (tag, payload, crc)" by (cases c) auto
  from assms(1) c have l: "length tag = 4" "length crc = 4" "length payload < 2 ^ 32"
    by (auto simp: chunk_wf_def)
  define bs where "bs = chunk_bytes c @ rest"
  have e: "bs = be32 (length payload) @ tag @ payload @ crc @ rest"
    by (simp add: bs_def c chunk_bytes_def)
  have ne: "bs \<noteq> []"
    using l(1) by (auto simp: e)
  have len: "length bs = 12 + length payload + length rest"
    by (simp add: e l)
  have t4: "from_be32 (take 4 bs) = length payload"
    by (simp add: e from_be32_be32 [OF l(3)])
  have tg: "take 4 (drop 4 bs) = tag"
    by (simp add: e l)
  have pl: "take (length payload) (drop 8 bs) = payload"
    by (simp add: e l)
  have cr: "take 4 (drop (8 + length payload) bs) = crc"
    by (simp add: e l)
  have rs: "drop (12 + length payload) bs = rest"
    by (simp add: e l)
  have "parse_chunks bs = Some (c # cs)"
    by (subst parse_chunks.simps) (simp add: ne len t4 tg pl cr rs assms(2) c)
  then show ?thesis by (simp add: bs_def)
qed

lemma parse_chunks_Nil: "parse_chunks [] = Some []"
  by (subst parse_chunks.simps) simp

lemma parse_chunks_concat:
  "list_all chunk_wf cs \<Longrightarrow> parse_chunks (concat (map chunk_bytes cs)) = Some cs"
proof (induction cs)
  case Nil
  show ?case by (simp add: parse_chunks_Nil)
next
  case (Cons c cs)
  from Cons.prems have w: "chunk_wf c" and ws: "list_all chunk_wf cs"
    by simp_all
  from Cons.IH [OF ws] have r: "parse_chunks (concat (map chunk_bytes cs)) = Some cs" .
  have "concat (map chunk_bytes (c # cs)) = chunk_bytes c @ concat (map chunk_bytes cs)"
    by simp
  then show ?case
    by (simp only: parse_chunk_bytes [OF w r])
qed

lemma tag_lengths [simp]: "length IHDR = 4" "length IDAT = 4" "length IEND = 4" "length signature = 8"
  by (simp_all add: IHDR_def IDAT_def IEND_def signature_def)

text \<open>
  C5. The bytes returned by \<open>create_png\<close> are the signature followed by the
  serialization of three chunks, tagged IHDR, IDAT and IEND in this order. Each is its
  4-byte big-endian payload length, its tag, its payload and a 4-byte big-endian
  checksum, and each checksum is the CRC-32 recomputed over tag and payload. Reading the
  bytes after the signature back chunk by chunk yields exactly these three chunks.
\<close>

theorem chunk_layout:
  assumes "create_png compress width height pixels = Inr bs"
  shows "\<exists>cs. bs = signature @ concat (map chunk_bytes cs)
            \<and> map fst cs = [IHDR, IDAT, IEND]
            \<and> list_all crc_ok cs
            \<and> list_all chunk_wf cs
            \<and> parse_chunks (drop 8 bs) = Some cs"
proof -
  from create_png_InrD [OF assms] obtain raw where
    r: "length (compress raw) < 2 ^ 32" and
    bs: "bs = signature
               @ (be32 13 @ IHDR @ (be32 (nat width) @ be32 (nat height) @ [8, 6, 0, 0, 0])
                    @ be32 (unat (crc32 (IHDR @ be32 (nat width) @ be32 (nat height) @ [8, 6, 0, 0, 0]))))
               @ (be32 (length (compress raw)) @ IDAT @ compress raw
                    @ be32 (unat (crc32 (IDAT @ compress raw))))
               @ (be32 0 @ IEND @ [] @ be32 (unat (crc32 (IEND @ []))))"
    by blast
  define hdr where "hdr = be32 (nat width) @ be32 (nat height) @ [8, 6, 0, 0, 0 :: byte]"
  define cs where "cs = [(IHDR, hdr, be32 (unat (crc32 (IHDR @ hdr)))),
                         (IDAT, compress raw, be32 (unat (crc32 (IDAT @ compress raw)))),
                         (IEND, [], be32 (unat (crc32 (IEND @ []))))]"
  have l: "length hdr = 13" by (simp add: hdr_def)
  have 1: "bs = signature @ concat (map chunk_bytes cs)"
    by (simp add: bs cs_def chunk_bytes_def l) (simp add: hdr_def)
  have 2: "map fst cs = [IHDR, IDAT, IEND]" by (simp add: cs_def)
  have 3: "list_all crc_ok cs" by (simp add: cs_def crc_ok_def)
  have 4: "list_all chunk_wf cs" using r by (simp add: cs_def chunk_wf_def l)
  have d8: "drop 8 bs = concat (map chunk_bytes cs)" by (simp add: 1)
  have 5: "parse_chunks (drop 8 bs) = Some cs"
    unfolding d8 by (rule parse_chunks_concat [OF 4])
  show ?thesis
    by (rule exI [of _ cs]) (intro conjI 1 2 3 4 5)
qed

theorem chunk_layout_witness:
  "\<exists>bs cs. create_png (\<lambda>d. d) 1 1 [1, 2, 3, 4] = Inr bs
       \<and> parse_chunks (drop 8 bs) = Some cs \<and> map fst cs = [IHDR, IDAT, IEND] \<and> list_all crc_ok cs"
proof -
  obtain bs where h: "create_png (\<lambda>d. d) 1 1 [1, 2, 3, 4] = Inr bs"
    using create_png_small by blast
  from chunk_layout [OF h] obtain cs where
    cs: "bs = signature @ concat (map chunk_bytes cs)
            \<and> map fst cs = [IHDR, IDAT, IEND]
            \<and> list_all crc_ok cs
            \<and> list_all chunk_wf cs
            \<and> parse_chunks (drop 8 bs) = Some cs" ..
  from cs have p: "parse_chunks (drop 8 bs) = Some cs" by (elim conjE)
  from cs have t: "map fst cs = [IHDR, IDAT, IEND]" by (elim conjE)
  from cs have k: "list_all crc_ok cs" by (elim conjE)
  show ?thesis
    by (intro exI [of _ bs] exI [of _ cs] conjI h p t k)
qed

lemma py_bytes_ok:
  "list_all pixel_ok vs \<Longrightarrow> py_bytes vs = Inr (map word_of_int vs)"
  by (simp add: py_bytes_def pixel_ok_def [abs_def])

lemma list_all_slice: "list_all P xs \<Longrightarrow> list_all P (take n (drop m xs))"
  by (auto simp: list_all_iff dest: in_set_takeD in_set_dropD)

lemma row_loop_ok:
  assumes "list_all pixel_ok pixels"
  shows "row_loop pixels width y xs raw =
           Inr (raw @ concat (map (\<lambda>x. map word_of_int (take 4 (drop ((y * width + x) * 4) pixels))) xs))"
proof (induction xs arbitrary: raw)
  case Nil
  show ?case by simp
next
  case (Cons x xs)
  have "py_bytes (take 4 (drop ((y * width + x) * 4) pixels))
          = Inr (map word_of_int (take 4 (drop ((y * width + x) * 4) pixels)))"
    by (rule py_bytes_ok [OF list_all_slice [OF assms]])
  then show ?case by (simp add: Cons.IH)
qed

lemma rows_loop_ok:
  assumes "list_all pixel_ok pixels"
  shows "rows_loop pixels width ys raw =
           Inr (raw @ concat (map (\<lambda>y. 0 # row_bytes pixels width y) ys))"
proof (induction ys arbitrary: raw)
  case Nil
  show ?case by simp
next
  case (Cons y ys)
  show ?case
    by (simp add: row_loop_ok [OF assms] Cons.IH row_bytes_def)
qed

lemma raw_data_ok:
  "list_all pixel_ok pixels \<Longrightarrow>
     raw_data width height pixels = Inr (raw_bytes pixels (nat width) (nat height))"
  by (simp add: raw_data_def raw_bytes_def rows_loop_ok)

lemma concat_slices:
  "concat (map (\<lambda>i. take c (drop (b + c * i) ps)) [0..<n]) = take (c * n) (drop b ps)"
proof (induction n)
  case 0
  show ?case by simp
next
  case (Suc n)
  have "take (c * n + c) (drop b ps) = take (c * n) (drop b ps) @ take c (drop (c * n) (drop b ps))"
    by (rule take_add)
  then have "take (c * Suc n) (drop b ps) = take (c * n) (drop b ps) @ take c (drop (b + c * n) ps)"
    by (simp add: add.commute)
  with Suc show ?case by simp
qed

lemma row_bytes_slice:
  "row_bytes pixels width y = map word_of_int (take (4 * width) (drop (4 * width * y) pixels))"
proof -
  have "row_bytes pixels width y
          = map word_of_int (concat (map (\<lambda>x. take 4 (drop (4 * width * y + 4 * x) pixels)) [0..<width]))"
    by (simp add: row_bytes_def map_concat comp_def algebra_simps)
  then show ?thesis by (simp only: concat_slices)
qed

lemma uint_byte_of_int: "pixel_ok v \<Longrightarrow> uint (word_of_int v :: byte) = v"
  by (simp add: pixel_ok_def uint_word_of_int_eq take_bit_int_eq_self)

lemma map_uint_bytes: "list_all pixel_ok vs \<Longrightarrow> map uint (map word_of_int vs :: byte list) = vs"
  by (induction vs) (simp_all add: uint_byte_of_int)

lemma length_row_bytes:
  "length (row_bytes pixels width y) = min (4 * width) (length pixels - 4 * width * y)"
  by (simp add: row_bytes_slice min.commute)

lemma strip_rows_concat:
  "list_all (\<lambda>r. length r = 4 * w) rows \<Longrightarrow>
     strip_rows (length rows) w (concat (map (\<lambda>r. 0 # r) rows)) = Some (concat rows)"
  by (induction rows) simp_all

lemma concat_rows:
  "concat (map (row_bytes pixels width) [0..<height])
     = map word_of_int (take (4 * width * height) pixels)"
proof -
  have "concat (map (row_bytes pixels width) [0..<height])
          = map word_of_int (concat (map (\<lambda>y. take (4 * width) (drop (0 + 4 * width * y) pixels)) [0..<height]))"
    by (simp add: row_bytes_slice [abs_def] map_concat comp_def)
  then show ?thesis by (simp only: concat_slices) simp
qed

lemma raw_bytes_rows:
  "raw_bytes pixels width height = concat (map (\<lambda>r. 0 # r) (map (row_bytes pixels width) [0..<height]))"
  by (simp add: raw_bytes_def comp_def)

lemma strip_rows_raw_bytes:
  assumes "length pixels = 4 * width * height"
  shows "strip_rows height width (raw_bytes pixels width height) = Some (map word_of_int pixels)"
proof -
  define rows where "rows = map (row_bytes pixels width) [0..<height]"
  have len: "length rows = height" by (simp add: rows_def)
  have "4 * width \<le> length pixels - 4 * width * y" if "y < height" for y
  proof -
    from that have "Suc y \<le> height" by simp
    then have "4 * width * Suc y \<le> 4 * width * height" by (rule mult_le_mono2)
    then show ?thesis using assms by simp
  qed
  then have "list_all (\<lambda>r. length r = 4 * width) rows"
    by (simp add: rows_def list_all_iff length_row_bytes)
  from strip_rows_concat [OF this]
  have "strip_rows height width (raw_bytes pixels width height) = Some (concat rows)"
    by (simp only: len raw_bytes_rows rows_def [symmetric])
  also have "concat rows = map word_of_int (take (4 * width * height) pixels)"
    by (simp only: rows_def concat_rows)
  finally show ?thesis using assms by simp
qed

lemma length_raw_bytes:
  "length (raw_bytes pixels width height) = height + min (length pixels) (4 * width * height)"
proof -
  have "length (raw_bytes pixels width height)
          = length (concat (map (\<lambda>y. [0 :: byte]) [0..<height]))
            + length (concat (map (row_bytes pixels width) [0..<height]))"
    unfolding raw_bytes_def by (induction height) simp_all
  also have "length (concat (map (\<lambda>y. [0 :: byte]) [0..<height])) = height"
    by (induction height) simp_all
  finally show ?thesis by (simp add: concat_rows min.commute)
qed

lemma png_chunks_wf: "length dat < 2 ^ 32 \<Longrightarrow> list_all chunk_wf (png_chunks w h dat)"
  by (simp add: png_chunks_def chunk_wf_def Let_def)

lemma png_chunks_crc: "list_all crc_ok (png_chunks w h dat)"
  by (simp add: png_chunks_def crc_ok_def Let_def)

lemma png_chunks_tags: "map fst (png_chunks w h dat) = [IHDR, IDAT, IEND]"
  by (simp add: png_chunks_def Let_def)

lemma create_png_chunks:
  assumes "create_png compress width height pixels = Inr bs"
  shows "\<exists>raw. raw_data width height pixels = Inr raw
           \<and> 0 \<le> width \<and> width < 2 ^ 32 \<and> 0 \<le> height \<and> height < 2 ^ 32
           \<and> length (compress raw) < 2 ^ 32
           \<and> bs = signature @ concat (map chunk_bytes (png_chunks (nat width) (nat height) (compress raw)))"
proof -
  from create_png_InrD [OF assms] obtain raw where
    r: "raw_data width height pixels = Inr raw" "0 \<le> width" "width < 2 ^ 32"
       "0 \<le> height" "height < 2 ^ 32" "length (compress raw) < 2 ^ 32" and
    bs: "bs = signature
               @ (be32 13 @ IHDR @ (be32 (nat width) @ be32 (nat height) @ [8, 6, 0, 0, 0])
                    @ be32 (unat (crc32 (IHDR @ be32 (nat width) @ be32 (nat height) @ [8, 6, 0, 0, 0]))))
               @ (be32 (length (compress raw)) @ IDAT @ compress raw
                    @ be32 (unat (crc32 (IDAT @ compress raw))))
               @ (be32 0 @ IEND @ [] @ be32 (unat (crc32 (IEND @ []))))"
    by blast
  have "bs = signature @ concat (map chunk_bytes (png_chunks (nat width) (nat height) (compress raw)))"
    by (simp add: bs png_chunks_def chunk_bytes_def Let_def)
  with r show ?thesis by blast
qed

lemma create_png_ok:
  assumes "0 \<le> width" "width < 2 ^ 32" "0 \<le> height" "height < 2 ^ 32"
    and "list_all pixel_ok pixels"
    and "length (compress (raw_bytes pixels (nat width) (nat height))) < 2 ^ 32"
  shows "create_png compress width height pixels =
           Inr (signature @ concat (map chunk_bytes
                  (png_chunks (nat width) (nat height) (compress (raw_bytes pixels (nat width) (nat height))))))"
  using assms
  by (simp add: create_png_def ihdr_data_def make_chunk_def struct_pack_I_def Let_def
      raw_data_ok png_chunks_def chunk_bytes_def)

lemma parse_png_chunks:
  assumes "length dat < 2 ^ 32"
  shows "parse_chunks (drop 8 (signature @ concat (map chunk_bytes (png_chunks w h dat))))
           = Some (png_chunks w h dat)"
  using parse_chunks_concat [OF png_chunks_wf [OF assms]] by simp

lemma decode_png_chunks:
  assumes "w < 2 ^ 32" "h < 2 ^ 32" "length dat < 2 ^ 32" "decompress dat = Some raw"
  shows "decode_png decompress (signature @ concat (map chunk_bytes (png_chunks w h dat)))
           = (case strip_rows h w raw of None \<Rightarrow> None | Some px \<Rightarrow> Some (w, h, map uint px))"
proof -
  have p: "parse_chunks (drop 8 (signature @ concat (map chunk_bytes (png_chunks w h dat))))
             = Some (png_chunks w h dat)"
    by (rule parse_png_chunks [OF assms(3)])
  have s: "take 8 (signature @ concat (map chunk_bytes (png_chunks w h dat))) = signature"
    by simp
  show ?thesis
    unfolding decode_png_def p s
    using assms
    by (simp add: png_chunks_def Let_def crc_ok_def from_be32_be32)
qed

text \<open>
  C3, as amended. For width and height in \<open>0 .. 2^32 - 1\<close>, a buffer of
  \<open>width * height * 4\<close> values in \<open>0 .. 255\<close>, a compressed stream shorter than
  \<open>2^32\<close> bytes and a decompressor that inverts the compressor on this stream:
  \<open>create_png\<close> returns bytes that begin with the 8-byte signature, and decoding them
  (chunks, header, decompression, one filter byte stripped per row) gives back the
  width, the height and exactly the buffer.
\<close>

theorem png_round_trip:
  assumes "0 \<le> width" "width < 2 ^ 32" "0 \<le> height" "height < 2 ^ 32"
    and "length buf = nat (width * height * 4)"
    and "list_all pixel_ok buf"
    and "length (compress (raw_bytes buf (nat width) (nat height))) < 2 ^ 32"
    and "decompress (compress (raw_bytes buf (nat width) (nat height)))
           = Some (raw_bytes buf (nat width) (nat height))"
  shows "\<exists>bs. create_png compress width height buf = Inr bs
            \<and> take 8 bs = signature
            \<and> decode_png decompress bs = Some (nat width, nat height, buf)"
proof -
  define raw where "raw = raw_bytes buf (nat width) (nat height)"
  define bs where
    "bs = signature @ concat (map chunk_bytes (png_chunks (nat width) (nat height) (compress raw)))"
  have lc: "length (compress raw) < 2 ^ 32" and dc: "decompress (compress raw) = Some raw"
    using assms(7,8) by (simp_all add: raw_def)
  have c: "create_png compress width height buf = Inr bs"
    unfolding bs_def raw_def
    by (rule create_png_ok [where compress = compress, OF assms(1-4) assms(6) assms(7)])
  have s: "take 8 bs = signature" by (simp add: bs_def)
  have w: "nat width < 2 ^ 32" "nat height < 2 ^ 32"
    using assms(1-4) by simp_all
  have len: "length buf = 4 * nat width * nat height"
    using assms(1,3,5) by (simp add: nat_mult_distrib mult_nonneg_nonneg mult.commute)
  have "decode_png decompress bs
          = (case strip_rows (nat height) (nat width) raw of
               None \<Rightarrow> None
             | Some px \<Rightarrow> Some (nat width, nat height, map uint px))"
    unfolding bs_def
    by (rule decode_png_chunks [where decompress = decompress and dat = "compress raw",
          OF w lc dc])
  also have "\<dots> = Some (nat width, nat height, buf)"
    by (simp add: raw_def strip_rows_raw_bytes [OF len] map_uint_bytes [OF assms(6)] del: map_map)
  finally show ?thesis using c s by blast
qed

theorem png_round_trip_witness:
  "\<exists>bs. create_png id 2 1 [10, 20, 30, 255, 0, 1, 2, 3] = Inr bs
       \<and> take 8 bs = signature
       \<and> decode_png Some bs = Some (2, 1, [10, 20, 30, 255, 0, 1, 2, 3])"
proof -
  have "\<exists>bs. create_png id 2 1 [10, 20, 30, 255, 0, 1, 2, 3] = Inr bs
       \<and> take 8 bs = signature
       \<and> decode_png Some bs = Some (nat 2, nat 1, [10, 20, 30, 255, 0, 1, 2, 3])"
    by (rule png_round_trip) (simp_all add: length_raw_bytes pixel_ok_def)
  then show ?thesis by simp
qed

text \<open>
  C3 as stated fails: for width \<open>2^32\<close>, height 0 and the empty buffer (whose length
  is \<open>width * height * 4\<close>) packing the header raises \<open>struct.error\<close>.
\<close>

theorem png_round_trip_counterexample:
  "length ([] :: int list) = nat (4294967296 * 0 * 4) \<and> list_all pixel_ok []
     \<and> create_png id 4294967296 0 [] = Inl StructError"
  by (simp add: create_png_def ihdr_data_def)

text \<open>
  C9, as amended. For width and height in \<open>0 .. 2^32 - 1\<close>, any pixel list with
  values in \<open>0 .. 255\<close>, whatever its length, and a compressed stream shorter than
  \<open>2^32\<close> bytes, \<open>create_png\<close> raises nothing: the loops produce a data stream
  of \<open>height + min (length pixels) (4 * width * height)\<close> bytes, and the result is a
  well-formed stream of the chunks IHDR, IDAT, IEND with matching checksums whose IDAT
  payload is the compressed data stream. When the list is shorter than
  \<open>4 * width * height\<close>, the data stream is shorter than
  \<open>height * (1 + 4 * width)\<close>: the length of the buffer is never checked.
\<close>

theorem create_png_unchecked_length:
  assumes "0 \<le> width" "width < 2 ^ 32" "0 \<le> height" "height < 2 ^ 32"
    and "list_all pixel_ok pixels"
    and "length (compress (raw_bytes pixels (nat width) (nat height))) < 2 ^ 32"
  shows "\<exists>raw bs cs. raw_data width height pixels = Inr raw
           \<and> create_png compress width height pixels = Inr bs
           \<and> parse_chunks (drop 8 bs) = Some cs
           \<and> map fst cs = [IHDR, IDAT, IEND] \<and> list_all crc_ok cs
           \<and> fst (snd (cs ! 1)) = compress raw
           \<and> length raw = nat height + min (length pixels) (4 * nat width * nat height)
           \<and> (length pixels < 4 * nat width * nat height
                \<longrightarrow> length raw < nat height * (1 + 4 * nat width))"
proof -
  define raw where "raw = raw_bytes pixels (nat width) (nat height)"
  define cs where "cs = png_chunks (nat width) (nat height) (compress raw)"
  define bs where "bs = signature @ concat (map chunk_bytes cs)"
  have c: "length (compress raw) < 2 ^ 32"
    using assms(6) by (simp add: raw_def)
  have 0: "raw_data width height pixels = Inr raw"
    unfolding raw_def by (rule raw_data_ok [OF assms(5)])
  have 1: "create_png compress width height pixels = Inr bs"
    unfolding bs_def cs_def raw_def
    by (rule create_png_ok [where compress = compress, OF assms])
  have 2: "parse_chunks (drop 8 bs) = Some cs"
    unfolding bs_def cs_def by (rule parse_png_chunks [OF c])
  have 3: "map fst cs = [IHDR, IDAT, IEND]"
    unfolding cs_def by (rule png_chunks_tags)
  have 4: "list_all crc_ok cs"
    unfolding cs_def by (rule png_chunks_crc)
  have 5: "fst (snd (cs ! 1)) = compress raw"
    by (simp add: cs_def png_chunks_def Let_def)
  have 6: "length raw = nat height + min (length pixels) (4 * nat width * nat height)"
    by (simp add: raw_def length_raw_bytes)
  have 7: "length pixels < 4 * nat width * nat height
             \<longrightarrow> length raw < nat height * (1 + 4 * nat width)"
    by (simp add: 6 algebra_simps)
  show ?thesis
    by (intro exI [of _ raw] exI [of _ bs] exI [of _ cs] conjI 0 1 2 3 4 5 6 7)
qed

lemma raw_bytes_short:
  "raw_bytes [1, 2, 3, 4, 5] 2 2 = [0, 1, 2, 3, 4, 5, 0]"
  by (simp add: raw_bytes_def row_bytes_def upt_conv_Cons)

theorem create_png_unchecked_length_witness:
  "\<exists>bs cs. raw_data 2 2 [1, 2, 3, 4, 5] = Inr [0, 1, 2, 3, 4, 5, 0]
       \<and> create_png id 2 2 [1, 2, 3, 4, 5] = Inr bs
       \<and> parse_chunks (drop 8 bs) = Some cs
       \<and> map fst cs = [IHDR, IDAT, IEND]
       \<and> fst (snd (cs ! 1)) = [0, 1, 2, 3, 4, 5, 0]"
proof -
  have r: "raw_data 2 2 [1, 2, 3, 4, 5] = Inr [0, 1, 2, 3, 4, 5, 0]"
    by (simp add: raw_data_ok pixel_ok_def raw_bytes_short)
  have "\<exists>raw bs cs. raw_data 2 2 [1, 2, 3, 4, 5] = Inr raw
           \<and> create_png id 2 2 [1, 2, 3, 4, 5] = Inr bs
           \<and> parse_chunks (drop 8 bs) = Some cs
           \<and> map fst cs = [IHDR, IDAT, IEND] \<and> list_all crc_ok cs
           \<and> fst (snd (cs ! 1)) = id raw
           \<and> length raw = nat 2 + min (length [1, 2, 3, 4, 5 :: int]) (4 * nat 2 * nat 2)
           \<and> (length [1, 2, 3, 4, 5 :: int] < 4 * nat 2 * nat 2
                \<longrightarrow> length raw < nat 2 * (1 + 4 * nat 2))"
    by (rule create_png_unchecked_length) (simp_all add: length_raw_bytes pixel_ok_def)
  then obtain raw bs cs where
    h: "raw_data 2 2 [1, 2, 3, 4, 5] = Inr raw"
       "create_png id 2 2 [1, 2, 3, 4, 5] = Inr bs"
       "parse_chunks (drop 8 bs) = Some cs"
       "map fst cs = [IHDR, IDAT, IEND]"
       "fst (snd (cs ! 1)) = id raw"
    by (elim exE conjE)
  from h(1) r have "raw = [0, 1, 2, 3, 4, 5, 0]" by simp
  with h(5) have p: "fst (snd (cs ! 1)) = [0, 1, 2, 3, 4, 5, 0]" by simp
  show ?thesis
    by (intro exI [of _ bs] exI [of _ cs] conjI r h(2) h(3) h(4) p)
qed

text \<open>
  C9 as stated fails: with width \<open>2^32\<close> the call raises \<open>struct.error\<close>, for a
  pixel list (here the empty one) whose values are all in range.
\<close>

theorem create_png_unchecked_length_counterexample:
  "list_all pixel_ok [] \<and> create_png id 4294967296 1 [] = Inl StructError"
  by (simp add: create_png_def ihdr_data_def)

section \<open>Properties of the floating-point model\<close>

subsection \<open>Powers of two\<close>

lemma pow2_powi: "pow2 e = 2 powi e"
  by (simp add: pow2_def power_int_def power_one_over inverse_eq_divide)

lemma pow2_pos [simp]: "0 < pow2 e"
  by (simp add: pow2_powi)

lemma pow2_nonzero [simp]: "pow2 e \<noteq> 0"
  by (simp add: pow2_powi)

lemma pow2_add: "pow2 (a + b) = pow2 a * pow2 b"
  by (simp add: pow2_powi power_int_add)

lemma pow2_diff: "pow2 (a - b) = pow2 a / pow2 b"
  by (simp add: pow2_powi power_int_diff)

lemma pow2_mono: "a \<le> b \<Longrightarrow> pow2 a \<le> pow2 b"
  by (simp add: pow2_powi power_int_increasing)

lemma pow2_strict_mono: "a < b \<Longrightarrow> pow2 a < pow2 b"
  by (simp add: pow2_powi power_int_strict_increasing)

lemma pow2_less_cancel: "pow2 a < pow2 b \<Longrightarrow> a < b"
  using pow2_mono [of b a] by (cases "a < b") auto

lemma pow2_nat: "0 \<le> e \<Longrightarrow> pow2 e = of_int (2 ^ nat e)"
  by (simp add: pow2_def)

lemma pow2_0 [simp]: "pow2 0 = 1"
  by (simp add: pow2_def)

subsection \<open>Rounding to an integer\<close>

lemma round_even_of_int [simp]: "round_even (of_int n) = n"
  by (simp add: round_even_def)

lemma round_even_cases:
  "round_even q = \<lfloor>q\<rfloor> \<or> round_even q = \<lfloor>q\<rfloor> + 1"
  by (simp add: round_even_def Let_def)

lemma round_even_mono:
  assumes "x \<le> y"
  shows "round_even x \<le> round_even y"
proof (cases "\<lfloor>x\<rfloor> < \<lfloor>y\<rfloor>")
  case True
  have "round_even x \<le> \<lfloor>x\<rfloor> + 1" using round_even_cases [of x] by auto
  also have "\<dots> \<le> \<lfloor>y\<rfloor>" using True by simp
  also have "\<dots> \<le> round_even y" using round_even_cases [of y] by auto
  finally show ?thesis .
next
  case False
  with assms have eq: "\<lfloor>x\<rfloor> = \<lfloor>y\<rfloor>"
    using floor_mono [of x y] by simp
  with assms have "x - of_int \<lfloor>x\<rfloor> \<le> y - of_int \<lfloor>y\<rfloor>" by simp
  then show ?thesis
    unfolding round_even_def Let_def eq by auto
qed

lemma round_even_minus: "round_even (- q) = - round_even q"
proof (cases "q = of_int \<lfloor>q\<rfloor>")
  case True
  then obtain n where "q = of_int n" ..
  then show ?thesis by (simp flip: of_int_minus)
next
  case False
  then have c: "\<lceil>q\<rceil> = \<lfloor>q\<rfloor> + 1"
    by (metis ceiling_altdef)
  have f: "\<lfloor>- q\<rfloor> = - \<lfloor>q\<rfloor> - 1"
    using c by (simp add: floor_minus)
  show ?thesis
    unfolding round_even_def Let_def f by (auto simp: algebra_simps)
qed

lemma round_even_ge: "of_int a \<le> q \<Longrightarrow> a \<le> round_even q"
  using round_even_mono [of "of_int a" q] by simp

lemma round_even_le: "q \<le> of_int b \<Longrightarrow> round_even q \<le> b"
  using round_even_mono [of q "of_int b"] by simp

subsection \<open>The binary exponent\<close>

lemma expo_minus [simp]: "expo (- q) = expo q"
  by (simp add: expo_def)

lemma expo_bounds:
  assumes "q \<noteq> 0"
  shows "pow2 (expo q) \<le> \<bar>q\<bar>" and "\<bar>q\<bar> < pow2 (expo q + 1)"
proof -
  obtain a b where ab: "quotient_of \<bar>q\<bar> = (a, b)" by (cases "quotient_of \<bar>q\<bar>") auto
  have b: "0 < b" using quotient_of_denom_pos [OF ab] .
  have q: "\<bar>q\<bar> = of_int a / of_int b" using quotient_of_div [OF ab] .
  have "0 < \<bar>q\<bar>" using assms by simp
  then have a: "0 < a" using b by (simp add: q zero_less_divide_iff)
  define la where "la = bitlen a"
  define lb where "lb = bitlen b"
  have la1: "1 \<le> la" using a bitlen_eq_zero_iff [of a] bitlen_nonneg [of a] by (simp add: la_def)
  have lb1: "1 \<le> lb" using b bitlen_eq_zero_iff [of b] bitlen_nonneg [of b] by (simp add: lb_def)
  have a_lo: "pow2 (la - 1) \<le> of_int a"
    using bitlen_bounds [OF a] la1 by (simp add: pow2_nat la_def flip: of_int_le_iff)
  have a_hi: "of_int a < pow2 la"
    using bitlen_bounds [OF a] la1 by (simp add: pow2_nat la_def flip: of_int_less_iff)
  have b_lo: "pow2 (lb - 1) \<le> of_int b"
    using bitlen_bounds [OF b] lb1 by (simp add: pow2_nat lb_def flip: of_int_le_iff)
  have b_hi: "of_int b < pow2 lb"
    using bitlen_bounds [OF b] lb1 by (simp add: pow2_nat lb_def flip: of_int_less_iff)
  define e where "e = la - lb"
  have bq: "(0::rat) < of_int b" using b by simp
  have "of_int a < pow2 (e + 1) * pow2 (lb - 1)"
    using a_hi by (simp add: e_def flip: pow2_add)
  also have "\<dots> \<le> pow2 (e + 1) * of_int b"
    using b_lo by (simp add: mult_left_mono)
  finally have hi: "\<bar>q\<bar> < pow2 (e + 1)"
    using bq by (simp add: q pos_divide_less_eq)
  have "pow2 (e - 1) * of_int b < pow2 (e - 1) * pow2 lb"
    using b_hi by (simp add: mult_strict_left_mono)
  also have "\<dots> = pow2 (la - 1)"
    by (simp add: e_def flip: pow2_add)
  also have "\<dots> \<le> of_int a" by (rule a_lo)
  finally have lo: "pow2 (e - 1) < \<bar>q\<bar>"
    using bq by (simp add: q pos_less_divide_eq)
  have ex: "expo q = (if pow2 e \<le> \<bar>q\<bar> then e else e - 1)"
    by (simp add: expo_def ab e_def la_def lb_def Let_def)
  show "pow2 (expo q) \<le> \<bar>q\<bar>"
    using lo by (simp add: ex)
  show "\<bar>q\<bar> < pow2 (expo q + 1)"
    using hi by (simp add: ex not_le)
qed

lemma expo_unique:
  assumes "pow2 e \<le> \<bar>q\<bar>" "\<bar>q\<bar> < pow2 (e + 1)"
  shows "expo q = e"
proof -
  have "0 < \<bar>q\<bar>" by (rule less_le_trans [OF pow2_pos assms(1)])
  then have q: "q \<noteq> 0" by simp
  have "pow2 (expo q) < pow2 (e + 1)"
    using expo_bounds(1) [OF q] assms(2) by simp
  then have 1: "expo q < e + 1" by (rule pow2_less_cancel)
  have "pow2 e < pow2 (expo q + 1)"
    using expo_bounds(2) [OF q] assms(1) by simp
  then have 2: "e < expo q + 1" by (rule pow2_less_cancel)
  from 1 2 show ?thesis by simp
qed

lemma expo_mono:
  assumes "p \<noteq> 0" "\<bar>p\<bar> \<le> \<bar>q\<bar>"
  shows "expo p \<le> expo q"
proof -
  have q: "q \<noteq> 0" using assms by auto
  have "pow2 (expo p) < pow2 (expo q + 1)"
    using expo_bounds(1) [OF assms(1)] expo_bounds(2) [OF q] assms(2) by simp
  then have "expo p < expo q + 1" by (rule pow2_less_cancel)
  then show ?thesis by simp
qed

subsection \<open>Rounding to a double\<close>

lemma rnd_0 [simp]: "rnd 0 = 0"
  by (simp add: rnd_def)

lemma rnd_minus: "rnd (- q) = - rnd q"
  by (simp add: rnd_def Let_def round_even_minus)

lemma rnd_pos_bounds:
  assumes "0 < q"
  shows "pow2 (expo q) \<le> rnd q" and "rnd q \<le> pow2 (expo q + 1)"
proof -
  define u where "u = pow2 (expo q - 52)"
  have u: "0 < u" by (simp add: u_def)
  have q0: "q \<noteq> 0" using assms by simp
  have r: "rnd q = of_int (round_even (q / u)) * u"
    using q0 by (simp add: rnd_def u_def Let_def)
  have lo: "pow2 (expo q) \<le> q" and hi: "q < pow2 (expo q + 1)"
    using expo_bounds [OF q0] assms by simp_all
  have e52: "pow2 (expo q) = of_int (2 ^ 52) * u"
  proof -
    have "pow2 (expo q) = pow2 (52 + (expo q - 52))"
      by (rule arg_cong [where f = pow2]) simp
    also have "\<dots> = pow2 52 * u" unfolding u_def by (rule pow2_add)
    also have "pow2 52 = of_int (2 ^ 52)" by (simp add: pow2_def)
    finally show ?thesis .
  qed
  have e53: "pow2 (expo q + 1) = of_int (2 ^ 53) * u"
  proof -
    have "pow2 (expo q + 1) = pow2 (53 + (expo q - 52))"
      by (rule arg_cong [where f = pow2]) simp
    also have "\<dots> = pow2 53 * u" unfolding u_def by (rule pow2_add)
    also have "pow2 53 = of_int (2 ^ 53)" by (simp add: pow2_def)
    finally show ?thesis .
  qed
  have "of_int (2 ^ 52) \<le> q / u"
    using lo u by (simp add: e52 pos_le_divide_eq)
  then have "2 ^ 52 \<le> round_even (q / u)" by (rule round_even_ge)
  then have "(of_int (2 ^ 52) :: rat) \<le> of_int (round_even (q / u))"
    by (simp only: of_int_le_iff)
  then show "pow2 (expo q) \<le> rnd q"
    unfolding r e52 using u by (simp only: mult_right_mono less_imp_le)
  have "q / u \<le> of_int (2 ^ 53)"
    using hi u by (simp add: e53 pos_divide_le_eq less_imp_le)
  then have "round_even (q / u) \<le> 2 ^ 53" by (rule round_even_le)
  then have "(of_int (round_even (q / u)) :: rat) \<le> of_int (2 ^ 53)"
    by (simp only: of_int_le_iff)
  then show "rnd q \<le> pow2 (expo q + 1)"
    unfolding r e53 using u by (simp only: mult_right_mono less_imp_le)
qed

lemma rnd_pos: "0 < q \<Longrightarrow> 0 < rnd q"
  by (rule less_le_trans [OF pow2_pos rnd_pos_bounds(1)])

lemma rnd_nonneg: "0 \<le> q \<Longrightarrow> 0 \<le> rnd q"
  using rnd_pos [of q] by (cases "q = 0") (simp_all add: less_imp_le)

lemma rnd_mono_pos:
  assumes "0 < p" "p \<le> q"
  shows "rnd p \<le> rnd q"
proof (cases "expo p = expo q")
  case True
  define u where "u = pow2 (expo q - 52)"
  have u: "0 < u" by (simp add: u_def)
  have "p / u \<le> q / u" using assms(2) u by (simp add: divide_right_mono less_imp_le)
  then have "round_even (p / u) \<le> round_even (q / u)" by (rule round_even_mono)
  then have "(of_int (round_even (p / u)) :: rat) * u \<le> of_int (round_even (q / u)) * u"
    using u by (simp add: mult_right_mono less_imp_le)
  then show ?thesis
    using assms by (simp add: rnd_def Let_def True u_def)
next
  case False
  have q: "0 < q" using assms by simp
  have "expo p \<le> expo q"
    by (rule expo_mono) (use assms in simp_all)
  with False have "expo p + 1 \<le> expo q" by simp
  then have "pow2 (expo p + 1) \<le> pow2 (expo q)" by (rule pow2_mono)
  with rnd_pos_bounds(2) [OF assms(1)] rnd_pos_bounds(1) [OF q] show ?thesis by simp
qed

lemma rnd_mono:
  assumes "p \<le> q"
  shows "rnd p \<le> rnd q"
proof -
  consider "0 < p" | "p \<le> 0" "0 \<le> q" | "q < 0" by linarith
  then show ?thesis
  proof cases
    case 1
    then show ?thesis by (rule rnd_mono_pos) (rule assms)
  next
    case 2
    have "rnd p \<le> 0" using rnd_nonneg [of "- p"] 2(1) by (simp add: rnd_minus)
    also have "0 \<le> rnd q" by (rule rnd_nonneg [OF 2(2)])
    finally show ?thesis .
  next
    case 3
    have "rnd (- q) \<le> rnd (- p)"
      by (rule rnd_mono_pos) (use 3 assms in simp_all)
    then show ?thesis by (simp add: rnd_minus)
  qed
qed

lemma rnd_exact:
  assumes "\<bar>m\<bar> < 2 ^ 53"
  shows "rnd (of_int m * pow2 k) = of_int m * pow2 k"
proof (cases "m = 0")
  case True
  then show ?thesis by simp
next
  case False
  define q where "q = of_int m * pow2 k"
  have q0: "q \<noteq> 0" using False by (simp add: q_def)
  have aq: "\<bar>q\<bar> = of_int \<bar>m\<bar> * pow2 k"
    by (simp add: q_def abs_mult abs_of_pos)
  have "(of_int \<bar>m\<bar> :: rat) < of_int (2 ^ 53)"
    using assms by (simp only: of_int_less_iff)
  then have "\<bar>q\<bar> < of_int (2 ^ 53) * pow2 k"
    unfolding aq by (simp add: mult_strict_right_mono)
  also have "\<dots> = pow2 (53 + k)"
    using pow2_add [of 53 k] by (simp add: pow2_nat)
  finally have "pow2 (expo q) < pow2 (53 + k)"
    using expo_bounds(1) [OF q0] by simp
  then have "expo q < 53 + k" by (rule pow2_less_cancel)
  define E where "E = expo q"
  define j where "j = k - (E - 52)"
  have j: "0 \<le> j" using \<open>expo q < 53 + k\<close> by (simp add: j_def E_def)
  have "pow2 k = pow2 (j + (E - 52))"
    by (rule arg_cong [where f = pow2]) (simp add: j_def)
  then have k: "pow2 k = pow2 j * pow2 (E - 52)"
    by (simp only: pow2_add)
  have pj: "pow2 j = of_int (2 ^ nat j)" by (rule pow2_nat [OF j])
  have "q / pow2 (E - 52) = of_int m * pow2 j"
    by (simp add: q_def k)
  also have "\<dots> = of_int (m * 2 ^ nat j)"
    by (simp only: pj of_int_mult)
  finally have "round_even (q / pow2 (E - 52)) = m * 2 ^ nat j"
    by (simp only: round_even_of_int)
  then have "rnd q = of_int (m * 2 ^ nat j) * pow2 (E - 52)"
    using q0 by (simp add: rnd_def Let_def flip: E_def)
  also have "\<dots> = of_int m * pow2 j * pow2 (E - 52)"
    by (simp only: pj of_int_mult)
  also have "\<dots> = q"
    by (simp add: q_def k)
  finally show ?thesis by (simp add: q_def)
qed

lemma rnd_of_int: "\<bar>n\<bar> < 2 ^ 53 \<Longrightarrow> rnd (of_int n) = of_int n"
  using rnd_exact [of n 0] by simp

lemma rnd_half_int: "\<bar>n\<bar> < 2 ^ 53 \<Longrightarrow> rnd (of_int n / 2) = of_int n / 2"
  using rnd_exact [of n "- 1"] by (simp add: pow2_def)

lemma rnd_numeral [simp]: "numeral w < (2 ^ 53 :: int) \<Longrightarrow> rnd (numeral w) = numeral w"
  using rnd_of_int [of "numeral w"] by simp

lemma rnd_1 [simp]: "rnd 1 = 1"
  using rnd_of_int [of 1] by simp

end
